theory Spec2Isabelle
  imports Main "HOL-Library.Word"
begin

unbundle bit_operations_syntax

section \<open>Python strings and bytes\<close>

text \<open>
  A Python \<open>str\<close> is modelled as a \<open>string\<close>: a list of characters, one \<open>char\<close> per code
  point, for the code points U+0000 to U+00FF. Every such string has a UTF-8 encoding, so
  \<open>str.encode('utf-8')\<close> is total here. Bytes are 8-bit words.
\<close>

type_synonym byte = "8 word"
type_synonym u32 = "32 word"

text \<open>\<open>str.lower()\<close>: A-Z and the Latin-1 capitals U+00C0 to U+00DE (without the
  multiplication sign U+00D7) move up by 32; every other character stays.\<close>

definition lower_char :: "char \<Rightarrow> char" where
  "lower_char c =
     (let n = (of_char c :: nat)
      in if (65 \<le> n \<and> n \<le> 90) \<or> (192 \<le> n \<and> n \<le> 222 \<and> n \<noteq> 215)
         then char_of (n + 32) else c)"

definition lower :: "string \<Rightarrow> string" where
  "lower s = map lower_char s"

text \<open>\<open>str.upper()\<close>, as far as the program uses it: its only argument is a prefix of a
  hexadecimal digest, where upper-casing moves a-z down by 32 and keeps the digits.\<close>

definition upper_char :: "char \<Rightarrow> char" where
  "upper_char c =
     (let n = (of_char c :: nat)
      in if 97 \<le> n \<and> n \<le> 122 then char_of (n - 32) else c)"

definition upper :: "string \<Rightarrow> string" where
  "upper s = map upper_char s"

text \<open>\<open>str.isspace\<close> on one character: the characters that \<open>str.strip()\<close> removes
  (tab to carriage return, the four separators U+001C to U+001F, space, U+0085, U+00A0).\<close>

definition isspace :: "char \<Rightarrow> bool" where
  "isspace c =
     (let n = (of_char c :: nat)
      in (9 \<le> n \<and> n \<le> 13) \<or> (28 \<le> n \<and> n \<le> 32) \<or> n = 133 \<or> n = 160)"

definition strip :: "string \<Rightarrow> string" where
  "strip s = rev (dropWhile isspace (rev (dropWhile isspace s)))"

text \<open>\<open>s.replace(c, "")\<close> for a one-character \<open>c\<close>: every occurrence is removed.\<close>

definition remove_char :: "char \<Rightarrow> string \<Rightarrow> string" where
  "remove_char c s = filter (\<lambda>x. x \<noteq> c) s"

definition startswith :: "string \<Rightarrow> string \<Rightarrow> bool" where
  "startswith s p = (take (length p) s = p)"

text \<open>\<open>sep.join(segments)\<close>.\<close>

fun join :: "string \<Rightarrow> string list \<Rightarrow> string" where
  "join sep [] = []"
| "join sep [x] = x"
| "join sep (x # y # ys) = x @ sep @ join sep (y # ys)"

text \<open>\<open>range(0, n, k)\<close> for a positive step \<open>k\<close>.\<close>

definition range_step :: "nat \<Rightarrow> nat \<Rightarrow> nat list" where
  "range_step n k = map (\<lambda>j. k * j) [0..<(n + (k - 1)) div k]"

text \<open>\<open>s.encode('utf-8')\<close>: one byte below U+0080, two bytes from there to U+00FF.\<close>

definition utf8_char :: "char \<Rightarrow> byte list" where
  "utf8_char c =
     (let n = (of_char c :: nat)
      in if n < 128 then [of_nat n]
         else [of_nat (192 + n div 64), of_nat (128 + n mod 64)])"

definition utf8_encode :: "string \<Rightarrow> byte list" where
  "utf8_encode s = concat (map utf8_char s)"

section \<open>SHA-256 (hashlib.sha256), after FIPS 180-4\<close>

definition rotr :: "nat \<Rightarrow> u32 \<Rightarrow> u32" where
  "rotr n x = drop_bit n x OR push_bit (32 - n) x"

definition Ch :: "u32 \<Rightarrow> u32 \<Rightarrow> u32 \<Rightarrow> u32" where
  "Ch x y z = (x AND y) XOR (NOT x AND z)"

definition Maj :: "u32 \<Rightarrow> u32 \<Rightarrow> u32 \<Rightarrow> u32" where
  "Maj x y z = (x AND y) XOR (x AND z) XOR (y AND z)"

definition bsig0 :: "u32 \<Rightarrow> u32" where
  "bsig0 x = rotr 2 x XOR rotr 13 x XOR rotr 22 x"

definition bsig1 :: "u32 \<Rightarrow> u32" where
  "bsig1 x = rotr 6 x XOR rotr 11 x XOR rotr 25 x"

definition ssig0 :: "u32 \<Rightarrow> u32" where
  "ssig0 x = rotr 7 x XOR rotr 18 x XOR drop_bit 3 x"

definition ssig1 :: "u32 \<Rightarrow> u32" where
  "ssig1 x = rotr 17 x XOR rotr 19 x XOR drop_bit 10 x"

definition K256 :: "u32 list" where
  "K256 =
    [0x428A2F98, 0x71374491, 0xB5C0FBCF, 0xE9B5DBA5,
     0x3956C25B, 0x59F111F1, 0x923F82A4, 0xAB1C5ED5,
     0xD807AA98, 0x12835B01, 0x243185BE, 0x550C7DC3,
     0x72BE5D74, 0x80DEB1FE, 0x9BDC06A7, 0xC19BF174,
     0xE49B69C1, 0xEFBE4786, 0x0FC19DC6, 0x240CA1CC,
     0x2DE92C6F, 0x4A7484AA, 0x5CB0A9DC, 0x76F988DA,
     0x983E5152, 0xA831C66D, 0xB00327C8, 0xBF597FC7,
     0xC6E00BF3, 0xD5A79147, 0x06CA6351, 0x14292967,
     0x27B70A85, 0x2E1B2138, 0x4D2C6DFC, 0x53380D13,
     0x650A7354, 0x766A0ABB, 0x81C2C92E, 0x92722C85,
     0xA2BFE8A1, 0xA81A664B, 0xC24B8B70, 0xC76C51A3,
     0xD192E819, 0xD6990624, 0xF40E3585, 0x106AA070,
     0x19A4C116, 0x1E376C08, 0x2748774C, 0x34B0BCB5,
     0x391C0CB3, 0x4ED8AA4A, 0x5B9CCA4F, 0x682E6FF3,
     0x748F82EE, 0x78A5636F, 0x84C87814, 0x8CC70208,
     0x90BEFFFA, 0xA4506CEB, 0xBEF9A3F7, 0xC67178F2]"

type_synonym hstate = "u32 \<times> u32 \<times> u32 \<times> u32 \<times> u32 \<times> u32 \<times> u32 \<times> u32"

definition H0 :: hstate where
  "H0 = (0x6A09E667, 0xBB67AE85, 0x3C6EF372, 0xA54FF53A,
         0x510E527F, 0x9B05688C, 0x1F83D9AB, 0x5BE0CD19)"

definition sha_round :: "hstate \<Rightarrow> u32 \<times> u32 \<Rightarrow> hstate" where
  "sha_round s kw =
     (case s of (a, b, c, d, e, f, g, h) \<Rightarrow>
      case kw of (k, w) \<Rightarrow>
        (let t1 = h + bsig1 e + Ch e f g + k + w;
             t2 = bsig0 a + Maj a b c
         in (t1 + t2, a, b, c, d + t1, e, f, g)))"

text \<open>The message schedule: \<open>sched n win\<close> gives the next \<open>n\<close> words after the window
  \<open>win\<close> of the last sixteen.\<close>

fun sched :: "nat \<Rightarrow> u32 list \<Rightarrow> u32 list" where
  "sched 0 win = []"
| "sched (Suc n) win =
     (let w = ssig1 (win ! 14) + win ! 9 + ssig0 (win ! 1) + win ! 0
      in w # sched n (tl win @ [w]))"

definition be32 :: "byte list \<Rightarrow> u32" where
  "be32 bs = foldl (\<lambda>acc b. push_bit 8 acc OR ucast b) 0 bs"

function chunks :: "nat \<Rightarrow> 'a list \<Rightarrow> 'a list list" where
  "chunks n xs = (if n = 0 \<or> xs = [] then [] else take n xs # chunks n (drop n xs))"
  by pat_completeness auto
termination
  by (relation "measure (\<lambda>(n, xs). length xs)") auto

declare chunks.simps [simp del]

definition add_state :: "hstate \<Rightarrow> hstate \<Rightarrow> hstate" where
  "add_state s t =
     (case s of (a, b, c, d, e, f, g, h) \<Rightarrow>
      case t of (a', b', c', d', e', f', g', h') \<Rightarrow>
        (a + a', b + b', c + c', d + d', e + e', f + f', g + g', h + h'))"

definition compress :: "hstate \<Rightarrow> byte list \<Rightarrow> hstate" where
  "compress s blk =
     (let m = map be32 (chunks 4 blk);
          ws = m @ sched 48 m
      in add_state s (foldl sha_round s (zip K256 ws)))"

definition be64 :: "nat \<Rightarrow> byte list" where
  "be64 n = map (\<lambda>i. of_nat (n div 2 ^ (8 * i))) [7, 6, 5, 4, 3, 2, 1, 0]"

definition pad :: "byte list \<Rightarrow> byte list" where
  "pad msg = msg @ [0x80] @ replicate ((119 - length msg mod 64) mod 64) 0
               @ be64 (8 * length msg)"

definition sha256 :: "byte list \<Rightarrow> hstate" where
  "sha256 msg = foldl compress H0 (chunks 64 (pad msg))"

definition hexdigit :: "nat \<Rightarrow> char" where
  "hexdigit n = ''0123456789abcdef'' ! (n mod 16)"

definition hex32 :: "u32 \<Rightarrow> string" where
  "hex32 w = map (\<lambda>i. hexdigit (unat (drop_bit (4 * i) w))) [7, 6, 5, 4, 3, 2, 1, 0]"

definition hexdigest :: "hstate \<Rightarrow> string" where
  "hexdigest s =
     (case s of (a, b, c, d, e, f, g, h) \<Rightarrow>
        hex32 a @ hex32 b @ hex32 c @ hex32 d @ hex32 e @ hex32 f @ hex32 g @ hex32 h)"

text \<open>\<open>hashlib.sha256(data).hexdigest()\<close>.\<close>

definition sha256_hexdigest :: "byte list \<Rightarrow> string" where
  "sha256_hexdigest msg = hexdigest (sha256 msg)"

section \<open>The license key generator\<close>

text \<open>The module constant \<open>SECRET_KEY\<close>. Both functions read the global when they are
  called; the model passes its value as the first argument \<open>sk\<close>.\<close>

definition SECRET_KEY :: string where
  "SECRET_KEY = ''CHANGE_THIS_TO_RANDOM_64_CHAR_STRING_KEEP_IT_SECRET_AND_SAFE''"

datatype py_error = ValueError string | IndexError

text \<open>\<open>str(e)\<close> of an exception.\<close>

fun str_of_error :: "py_error \<Rightarrow> string" where
  "str_of_error (ValueError m) = m"
| "str_of_error IndexError = ''string index out of range''"

definition tier_codes :: "string \<rightharpoonup> string" where
  "tier_codes = map_of [(''pro'', ''P''), (''team'', ''T''), (''enterprise'', ''E'')]"

text \<open>The digest fragment: \<open>hashlib.sha256(f"{email}|{tier}|{SECRET_KEY}".encode('utf-8'))
  .hexdigest()[:12].upper()\<close>, which both functions compute.\<close>

definition hash_part :: "string \<Rightarrow> string \<Rightarrow> string \<Rightarrow> string" where
  "hash_part sk email tier_lower =
     (let hash_input = utf8_encode (email @ ''|'' @ tier_lower @ ''|'' @ sk);
          hash_digest = sha256_hexdigest hash_input
      in upper (take 12 hash_digest))"

definition generate_license :: "string \<Rightarrow> string \<Rightarrow> string \<Rightarrow> py_error + string" where
  "generate_license sk email tier =
     (let tier_lower = lower tier
      in case tier_codes tier_lower of
           None \<Rightarrow>
             Inl (ValueError (''Invalid tier: '' @ tier @ ''. Must be pro, team, or enterprise''))
         | Some tier_code \<Rightarrow>
             (let expiry = ''LIFE'';
                  key_raw = ''PRLX'' @ tier_code @ expiry @ hash_part sk email tier_lower;
                  segments = map (\<lambda>i. take 4 (drop i key_raw)) (range_step (length key_raw) 4)
              in Inr (join ''-'' segments)))"

section \<open>The license key validator\<close>

record validation =
  valid :: bool
  tier :: "string option"
  expiry :: "string option"
  email :: "string option"
  error :: "string option"

definition invalid :: "string \<Rightarrow> validation" where
  "invalid msg = \<lparr>valid = False, tier = None, expiry = None, email = None, error = Some msg\<rparr>"

definition tier_map :: "char \<rightharpoonup> string" where
  "tier_map = map_of [(CHR ''P'', ''pro''), (CHR ''T'', ''team''), (CHR ''E'', ''enterprise'')]"

text \<open>\<open>s[i]\<close> raises IndexError outside the string.\<close>

definition index_str :: "string \<Rightarrow> nat \<Rightarrow> py_error + char" where
  "index_str s i = (if i < length s then Inr (s ! i) else Inl IndexError)"

definition key_clean_of :: "string \<Rightarrow> string" where
  "key_clean_of license_key = strip (remove_char CHR '' '' (remove_char CHR ''-'' license_key))"

text \<open>The body of the \<open>try\<close> block: \<open>Inl\<close> is an exception that escapes it.\<close>

definition validate_body :: "string \<Rightarrow> string \<Rightarrow> string \<Rightarrow> py_error + validation" where
  "validate_body sk license_key email_addr =
     (let key_clean = key_clean_of license_key
      in if \<not> startswith key_clean ''PRLX''
         then Inr (invalid ''Invalid format: must start with PRLX'')
         else if length key_clean < 17
         then Inr (invalid ''Invalid format: key too short'')
         else case index_str key_clean 4 of
                Inl e \<Rightarrow> Inl e
              | Inr tier_code \<Rightarrow>
                  (let expiry_part = take 4 (drop 5 key_clean);
                       hash_provided = drop 9 key_clean
                   in case tier_map tier_code of
                        None \<Rightarrow> Inr (invalid ''Invalid tier code'')
                      | Some tier_name \<Rightarrow>
                          (let hash_expected = hash_part sk email_addr tier_name
                           in if hash_provided \<noteq> hash_expected
                              then Inr (invalid ''Invalid key: hash mismatch'')
                              else Inr \<lparr>valid = True, tier = Some tier_name,
                                        expiry = Some expiry_part, email = Some email_addr,
                                        error = None\<rparr>)))"

text \<open>The handler \<open>except Exception as e\<close>.\<close>

definition except_handler :: "py_error \<Rightarrow> validation" where
  "except_handler e = invalid (''Validation error: '' @ str_of_error e)"

text \<open>\<open>validate_license\<close>: the body of the \<open>try\<close> block under its handler.\<close>

definition validate_license :: "string \<Rightarrow> string \<Rightarrow> string \<Rightarrow> validation" where
  "validate_license sk license_key email_addr =
     (case validate_body sk license_key email_addr of
        Inl e \<Rightarrow> except_handler e
      | Inr r \<Rightarrow> r)"

section \<open>The key layout in the specification's words\<close>

text \<open>The tier code of the specification's bijection pro, team, enterprise to P, T, E.\<close>

definition spec_tier_code :: "string \<Rightarrow> string" where
  "spec_tier_code t = (if t = ''pro'' then ''P'' else if t = ''team'' then ''T'' else ''E'')"

text \<open>The raw key as the specification words it: prefix, tier code, expiry marker, and the
  first twelve characters of the upper-cased hexadecimal SHA-256 of
  \<open>email | lowercase tier | secret\<close>.\<close>

definition spec_raw_key :: "string \<Rightarrow> string \<Rightarrow> string \<Rightarrow> string" where
  "spec_raw_key sk e t =
     ''PRLX'' @ spec_tier_code t @ ''LIFE''
       @ take 12 (upper (sha256_hexdigest (utf8_encode (e @ ''|'' @ lower t @ ''|'' @ sk))))"

section \<open>Reasons of a validation failure\<close>

text \<open>The bad-format reasons are the two messages that start with \<open>Invalid format:\<close>.\<close>

definition bad_format :: "validation \<Rightarrow> bool" where
  "bad_format r =
     (\<not> valid r \<and> (case error r of None \<Rightarrow> False | Some m \<Rightarrow> startswith m ''Invalid format:''))"

section \<open>Comparing a tier without regard to case\<close>

text \<open>\<open>caseless_eq s w\<close>: \<open>s\<close> is the lower-case word \<open>w\<close> up to letter case, that is,
  each character of \<open>s\<close> is the character of \<open>w\<close> at its place or the capital A-Z of it.\<close>

definition caseless_char :: "char \<Rightarrow> char \<Rightarrow> bool" where
  "caseless_char c d =
     (c = d \<or> (65 \<le> (of_char c :: nat) \<and> (of_char c :: nat) \<le> 90
               \<and> (of_char c :: nat) + 32 = of_char d))"

definition caseless_eq :: "string \<Rightarrow> string \<Rightarrow> bool" where
  "caseless_eq s w = list_all2 caseless_char s w"

definition is_invalid_tier :: "py_error + string \<Rightarrow> bool" where
  "is_invalid_tier r = (case r of Inl (ValueError m) \<Rightarrow> True | _ \<Rightarrow> False)"

section \<open>Positions of the digest in a generated key\<close>

text \<open>The character at index \<open>r\<close> of the raw key is at index \<open>r + r div 4\<close> of the hyphenated
  key; the digest fragment starts at index 9 of the raw key.\<close>

definition digest_pos :: "nat \<Rightarrow> nat" where
  "digest_pos i = (9 + i) + (9 + i) div 4"

section \<open>The concrete scenario in the specification's words\<close>

text \<open>\<open>H\<close>: the first twelve characters of the upper-cased hexadecimal SHA-256 of a
  message.\<close>

definition spec_digest_part :: "string \<Rightarrow> string" where
  "spec_digest_part msg = take 12 (upper (sha256_hexdigest (utf8_encode msg)))"

section \<open>The cleaned key in the specification's words\<close>

text \<open>The supplied key with its hyphens and all its whitespace removed, wherever they
  stand.\<close>

definition spec_clean :: "string \<Rightarrow> string" where
  "spec_clean k = filter (\<lambda>c. c \<noteq> CHR ''-'' \<and> \<not> isspace c) k"

section \<open>The digest is sixty-four hexadecimal digits\<close>

lemma hexdigit_in: "hexdigit n \<in> set ''0123456789abcdef''"
  unfolding hexdigit_def by (rule nth_mem) simp

lemma length_hex32: "length (hex32 w) = 8"
  by (simp add: hex32_def)

lemma set_hex32: "set (hex32 w) \<subseteq> set ''0123456789abcdef''"
  unfolding hex32_def set_map using hexdigit_in by blast

lemma length_hexdigest: "length (hexdigest s) = 64"
  by (simp add: hexdigest_def length_hex32 split: prod.splits)

lemma set_hexdigest: "set (hexdigest s) \<subseteq> set ''0123456789abcdef''"
proof -
  obtain a b c d e f g h where s: "s = (a, b, c, d, e, f, g, h)"
    by (metis surj_pair)
  show ?thesis
    unfolding s hexdigest_def prod.case set_append
    using set_hex32 by blast
qed

lemma length_sha256_hexdigest: "length (sha256_hexdigest m) = 64"
  by (simp add: sha256_hexdigest_def length_hexdigest)

lemma set_sha256_hexdigest: "set (sha256_hexdigest m) \<subseteq> set ''0123456789abcdef''"
  by (simp only: sha256_hexdigest_def set_hexdigest)

lemma upper_char_hex:
  "c \<in> set ''0123456789abcdef'' \<Longrightarrow> upper_char c \<in> set ''0123456789ABCDEF''"
  by (auto simp: upper_char_def char_of_def bit_0)

lemma length_hash_part: "length (hash_part sk e t) = 12"
  by (simp add: hash_part_def upper_def length_sha256_hexdigest)

lemma set_hash_part: "set (hash_part sk e t) \<subseteq> set ''0123456789ABCDEF''"
proof
  fix c assume "c \<in> set (hash_part sk e t)"
  then obtain d where d: "d \<in> set (take 12 (sha256_hexdigest (utf8_encode (e @ ''|'' @ t @ ''|'' @ sk))))"
    and c: "c = upper_char d"
    by (auto simp: hash_part_def upper_def)
  from d have "d \<in> set ''0123456789abcdef''"
    using set_sha256_hexdigest by (meson in_set_takeD subsetD)
  with c show "c \<in> set ''0123456789ABCDEF''" by (simp only: upper_char_hex)
qed

section \<open>Chunking, joining and cleaning\<close>

lemma concat_chunks: "0 < n \<Longrightarrow> concat (chunks n xs) = xs"
proof (induction n xs rule: chunks.induct)
  case (1 n xs)
  show ?case
  proof (cases "xs = []")
    case True
    then show ?thesis by (simp add: chunks.simps)
  next
    case False
    with 1 have "concat (chunks n (drop n xs)) = drop n xs" by simp
    with False 1(2) show ?thesis by (subst chunks.simps) simp
  qed
qed

lemma range_step_Suc:
  assumes "0 < k" "0 < n"
  shows "range_step n k = 0 # map (\<lambda>i. i + k) (range_step (n - k) k)"
proof -
  have d: "(n + (k - 1)) div k = Suc ((n - k + (k - 1)) div k)"
  proof (cases "k \<le> n")
    case True
    then obtain m where n: "n = m + k" by (metis le_add_diff_inverse2)
    have "(m + k + (k - 1)) div k = (m + (k - 1) + k) div k" by (simp add: ac_simps)
    also have "\<dots> = (m + (k - 1)) div k + 1"
      by (rule div_add_self2) (use assms in simp)
    finally show ?thesis unfolding n by simp
  next
    case False
    then have a: "(n + (k - 1)) div k = 1"
      using assms by (simp add: div_nat_eqI)
    from False have "(n - k + (k - 1)) div k = 0" using assms by simp
    with a show ?thesis by simp
  qed
  have "[0..<Suc m] = 0 # map Suc [0..<m]" for m
    by (simp only: upt_conv_Cons zero_less_Suc map_Suc_upt)
  then show ?thesis
    unfolding range_step_def d by (simp add: comp_def)
qed

lemma segments_chunks:
  "0 < k \<Longrightarrow> map (\<lambda>i. take k (drop i xs)) (range_step (length xs) k) = chunks k xs"
proof (induction k xs rule: chunks.induct)
  case (1 n xs)
  show ?case
  proof (cases "xs = []")
    case True
    then show ?thesis using 1(2) by (simp add: chunks.simps range_step_def)
  next
    case False
    then have len: "0 < length xs" by simp
    have ih: "map (\<lambda>i. take n (drop i (drop n xs))) (range_step (length (drop n xs)) n)
                = chunks n (drop n xs)"
      using 1 False by simp
    have "map (\<lambda>i. take n (drop i xs)) (range_step (length xs) n)
            = take n xs # map (\<lambda>i. take n (drop (i + n) xs)) (range_step (length xs - n) n)"
      by (simp add: range_step_Suc [OF 1(2) len] comp_def)
    also have "\<dots> = take n xs # chunks n (drop n xs)"
      using ih by (simp add: add.commute)
    also have "\<dots> = chunks n xs"
      using False 1(2) by (subst (2) chunks.simps) simp
    finally show ?thesis .
  qed
qed

lemma remove_char_join:
  "remove_char c (join [c] xss) = remove_char c (concat xss)"
  by (induction "[c]" xss rule: join.induct) (simp_all add: remove_char_def)

lemma remove_char_id: "c \<notin> set s \<Longrightarrow> remove_char c s = s"
  by (auto simp: remove_char_def filter_id_conv)

lemma strip_id: "\<forall>c \<in> set s. \<not> isspace c \<Longrightarrow> strip s = s"
proof -
  assume a: "\<forall>c \<in> set s. \<not> isspace c"
  have g: "dropWhile isspace xs = xs" if "\<forall>c \<in> set xs. \<not> isspace c" for xs
    using that by (cases xs) simp_all
  from a have "dropWhile isspace s = s" by (rule g)
  moreover from a have "dropWhile isspace (rev s) = rev s" by (intro g) simp
  ultimately show ?thesis by (simp add: strip_def)
qed

lemma tier_codes_Some:
  "tier_codes t = Some c \<longleftrightarrow>
     (t = ''pro'' \<and> c = ''P'') \<or> (t = ''team'' \<and> c = ''T'') \<or> (t = ''enterprise'' \<and> c = ''E'')"
  by (auto simp: tier_codes_def)

lemma tier_codes_None:
  "tier_codes t = None \<longleftrightarrow> t \<notin> {''pro'', ''team'', ''enterprise''}"
  by (auto simp: tier_codes_def)

section \<open>Generated keys and the validator in closed form\<close>

lemma hash_part_chars:
  "c \<in> set (hash_part sk e t) \<Longrightarrow> c \<noteq> CHR ''-'' \<and> \<not> isspace c"
proof -
  assume "c \<in> set (hash_part sk e t)"
  then have "c \<in> set ''0123456789ABCDEF''" using set_hash_part by blast
  then show ?thesis by (auto simp: isspace_def)
qed

lemma generate_license_chunks:
  assumes "tier_codes (lower t) = Some code"
  shows "generate_license sk e t =
           Inr (join ''-'' (chunks 4 (''PRLX'' @ code @ ''LIFE'' @ hash_part sk e (lower t))))"
  using assms by (simp add: generate_license_def Let_def segments_chunks)

lemma raw_key_chars:
  assumes "tier_codes tn = Some code" "c \<in> set (''PRLX'' @ code @ ''LIFE'' @ hash_part sk e tn)"
  shows "c \<noteq> CHR ''-'' \<and> \<not> isspace c"
proof -
  from assms(1) have "code \<in> {''P'', ''T'', ''E''}" by (auto simp: tier_codes_Some)
  with assms(2) have "c \<in> set ''PRLXTEIF'' \<or> c \<in> set (hash_part sk e tn)" by auto
  then show ?thesis
  proof
    assume "c \<in> set ''PRLXTEIF''"
    then show ?thesis by (auto simp: isspace_def)
  next
    assume "c \<in> set (hash_part sk e tn)"
    then show ?thesis by (rule hash_part_chars)
  qed
qed

lemma key_clean_of_join_chunks:
  "key_clean_of (join ''-'' (chunks 4 xs)) = key_clean_of xs"
  by (simp add: key_clean_of_def remove_char_join concat_chunks)

lemma key_clean_of_id:
  assumes "\<forall>c \<in> set s. c \<noteq> CHR ''-'' \<and> \<not> isspace c"
  shows "key_clean_of s = s"
proof -
  have sp: "isspace CHR '' ''" by (simp add: isspace_def)
  from assms have "CHR ''-'' \<notin> set s" by blast
  moreover from assms sp have "CHR '' '' \<notin> set s" by blast
  moreover from assms have "strip s = s" by (intro strip_id) blast
  ultimately show ?thesis by (simp add: key_clean_of_def remove_char_id)
qed

lemma key_clean_of_generated:
  assumes "tier_codes tn = Some code"
  shows "key_clean_of (join ''-'' (chunks 4 (''PRLX'' @ code @ ''LIFE'' @ hash_part sk e tn)))
           = ''PRLX'' @ code @ ''LIFE'' @ hash_part sk e tn"
  unfolding key_clean_of_join_chunks
  by (rule key_clean_of_id) (use raw_key_chars [OF assms] in blast)

lemma validate_license_eq:
  "validate_license sk k e =
     (let kc = key_clean_of k
      in if \<not> startswith kc ''PRLX'' then invalid ''Invalid format: must start with PRLX''
         else if length kc < 17 then invalid ''Invalid format: key too short''
         else case tier_map (kc ! 4) of
                None \<Rightarrow> invalid ''Invalid tier code''
              | Some tn \<Rightarrow>
                  if drop 9 kc \<noteq> hash_part sk e tn then invalid ''Invalid key: hash mismatch''
                  else \<lparr>valid = True, tier = Some tn, expiry = Some (take 4 (drop 5 kc)),
                        email = Some e, error = None\<rparr>)"
  by (simp add: validate_license_def validate_body_def index_str_def Let_def split: option.splits)

lemma validate_raw:
  assumes "tier_codes tn = Some code"
  shows "validate_license sk (join ''-'' (chunks 4 (''PRLX'' @ code @ ''LIFE'' @ hash_part sk e tn))) e'
           = (if hash_part sk e tn = hash_part sk e' tn
              then \<lparr>valid = True, tier = Some tn, expiry = Some ''LIFE'', email = Some e',
                    error = None\<rparr>
              else invalid ''Invalid key: hash mismatch'')"
proof -
  define hp where "hp = hash_part sk e tn"
  have len: "length hp = 12" by (simp add: hp_def length_hash_part)
  have kc: "key_clean_of (join ''-'' (chunks 4 (''PRLX'' @ code @ ''LIFE'' @ hp)))
              = ''PRLX'' @ code @ ''LIFE'' @ hp"
    unfolding hp_def by (rule key_clean_of_generated [OF assms])
  from assms consider "tn = ''pro'' \<and> code = ''P''" | "tn = ''team'' \<and> code = ''T''"
    | "tn = ''enterprise'' \<and> code = ''E''"
    by (auto simp: tier_codes_Some)
  then show ?thesis
  proof cases
    case 1
    then show ?thesis
      unfolding validate_license_eq hp_def [symmetric] kc
      by (simp add: startswith_def len tier_map_def Let_def)
  next
    case 2
    then show ?thesis
      unfolding validate_license_eq hp_def [symmetric] kc
      by (simp add: startswith_def len tier_map_def Let_def)
  next
    case 3
    then show ?thesis
      unfolding validate_license_eq hp_def [symmetric] kc
      by (simp add: startswith_def len tier_map_def Let_def)
  qed
qed

section \<open>Round trip and key layout\<close>

lemma lower_tier_names:
  "lower ''pro'' = ''pro''" "lower ''team'' = ''team''" "lower ''enterprise'' = ''enterprise''"
  by (simp_all add: lower_def lower_char_def)

lemma tier_map_of_code:
  "tier_codes tn = Some code \<Longrightarrow> tier_map (hd code) = Some tn"
  by (auto simp: tier_codes_Some tier_map_def)

text \<open>C1 (round trip): for every email and every tier in {pro, team, enterprise},
  \<open>generate_license\<close> returns a key, and validating that key against the same email gives
  a result with \<open>valid = True\<close> whose decoded tier is the input tier.\<close>

theorem C1_round_trip:
  assumes "t \<in> {''pro'', ''team'', ''enterprise''}"
  shows "\<exists>key. generate_license sk e t = Inr key
           \<and> valid (validate_license sk key e)
           \<and> tier (validate_license sk key e) = Some t"
proof -
  from assms have low: "lower t = t" by (auto simp: lower_tier_names)
  from assms obtain code where code: "tier_codes t = Some code"
    by (auto simp: tier_codes_Some)
  have "generate_license sk e t =
          Inr (join ''-'' (chunks 4 (''PRLX'' @ code @ ''LIFE'' @ hash_part sk e t)))"
    using generate_license_chunks [of t code sk e] code low by simp
  moreover have "validate_license sk
      (join ''-'' (chunks 4 (''PRLX'' @ code @ ''LIFE'' @ hash_part sk e t))) e =
      \<lparr>valid = True, tier = Some t, expiry = Some ''LIFE'', email = Some e, error = None\<rparr>"
    using validate_raw [OF code, of sk e e] by simp
  ultimately show ?thesis by simp
qed

theorem C1_round_trip_witness:
  "''team'' \<in> {''pro'', ''team'', ''enterprise''}
   \<and> (\<exists>key. generate_license SECRET_KEY ''customer@example.com'' ''team'' = Inr key
         \<and> valid (validate_license SECRET_KEY key ''customer@example.com'')
         \<and> tier (validate_license SECRET_KEY key ''customer@example.com'') = Some ''team'')"
  using C1_round_trip [of "''team''" SECRET_KEY "''customer@example.com''"] by simp

text \<open>C2 (key layout): for every email and every tier in {pro, team, enterprise},
  \<open>generate_license\<close> returns exactly the raw key, which is 21 characters long, cut into
  successive 4-character chunks and joined with hyphens.\<close>

theorem C2_key_layout:
  assumes "t \<in> {''pro'', ''team'', ''enterprise''}"
  shows "generate_license sk e t = Inr (join ''-'' (chunks 4 (spec_raw_key sk e t)))
           \<and> length (spec_raw_key sk e t) = 21"
proof -
  from assms have low: "lower t = t" by (auto simp: lower_tier_names)
  from assms have code: "tier_codes t = Some (spec_tier_code t)"
    by (auto simp: tier_codes_Some spec_tier_code_def)
  have hp: "take 12 (upper (sha256_hexdigest (utf8_encode (e @ ''|'' @ lower t @ ''|'' @ sk))))
              = hash_part sk e t"
    by (simp add: hash_part_def upper_def take_map low)
  have raw: "spec_raw_key sk e t = ''PRLX'' @ spec_tier_code t @ ''LIFE'' @ hash_part sk e t"
    unfolding spec_raw_key_def hp ..
  have "length (spec_tier_code t) = 1" by (simp add: spec_tier_code_def)
  then have "length (spec_raw_key sk e t) = 21"
    unfolding raw by (simp add: length_hash_part)
  moreover have "generate_license sk e t = Inr (join ''-'' (chunks 4 (spec_raw_key sk e t)))"
    unfolding raw using generate_license_chunks [of t "spec_tier_code t" sk e] code low by simp
  ultimately show ?thesis by simp
qed

theorem C2_key_layout_witness:
  "''enterprise'' \<in> {''pro'', ''team'', ''enterprise''}
   \<and> generate_license SECRET_KEY ''team@company.com'' ''enterprise''
       = Inr (join ''-'' (chunks 4 (spec_raw_key SECRET_KEY ''team@company.com'' ''enterprise'')))
   \<and> length (spec_raw_key SECRET_KEY ''team@company.com'' ''enterprise'') = 21"
  using C2_key_layout [of "''enterprise''" SECRET_KEY "''team@company.com''"] by simp

section \<open>Failure results\<close>

lemma validate_body_returns:
  "validate_body sk k e = Inr (validate_license sk k e)"
  by (simp add: validate_license_def validate_body_def index_str_def Let_def split: option.splits)

lemma validate_license_cases:
  "validate_license sk k e \<in>
     {invalid ''Invalid format: must start with PRLX'', invalid ''Invalid format: key too short'',
      invalid ''Invalid tier code'', invalid ''Invalid key: hash mismatch''}
   \<or> (valid (validate_license sk k e) \<and> error (validate_license sk k e) = None)"
  by (simp add: validate_license_eq Let_def split: option.splits)

text \<open>C3 (never raises): for every key and email the body of \<open>validate_license\<close> returns a
  result, which \<open>validate_license\<close> returns; a result that is not valid is a structured
  failure with a non-empty reason; and the handler turns any exception into such a failure.\<close>

theorem C3_never_raises:
  "validate_body sk k e = Inr (validate_license sk k e)
   \<and> (if valid (validate_license sk k e) then error (validate_license sk k e) = None
      else \<exists>msg. msg \<noteq> [] \<and> validate_license sk k e = invalid msg)
   \<and> \<not> valid (except_handler x)
   \<and> error (except_handler x) = Some (''Validation error: '' @ str_of_error x)"
proof -
  have "\<not> valid (invalid m)" for m by (simp add: invalid_def)
  then show ?thesis
    using validate_license_cases [of sk k e]
    by (auto simp: validate_body_returns except_handler_def invalid_def)
qed

theorem C3_never_raises_witness:
  "\<not> valid (validate_license SECRET_KEY ''not a key'' ''a@b.com'')
   \<and> (\<exists>msg. msg \<noteq> [] \<and> validate_license SECRET_KEY ''not a key'' ''a@b.com'' = invalid msg)"
proof -
  have nv: "\<not> valid (validate_license SECRET_KEY ''not a key'' ''a@b.com'')"
    by (simp add: validate_license_eq key_clean_of_def remove_char_def strip_def isspace_def
        startswith_def invalid_def)
  with C3_never_raises [of SECRET_KEY "''not a key''" "''a@b.com''"] show ?thesis
    by simp
qed

text \<open>The bad-format results in terms of \<open>key_clean\<close>, the key as the code cleans it:
  hyphens and spaces removed everywhere, other whitespace only at the two ends.\<close>

lemma bad_format_iff_key_clean:
  "bad_format (validate_license sk k e)
     \<longleftrightarrow> (\<not> startswith (key_clean_of k) ''PRLX'' \<or> length (key_clean_of k) < 17)"
  by (simp add: validate_license_eq bad_format_def invalid_def startswith_def Let_def
      split: option.splits)

text \<open>Where the only whitespace of the key is the space character, the code's cleaned key
  is the key without hyphens and whitespace.\<close>

lemma key_clean_of_spec_clean:
  assumes "\<forall>c \<in> set k. isspace c \<longrightarrow> c = CHR '' ''"
  shows "key_clean_of k = spec_clean k"
proof -
  have sp: "isspace CHR '' ''" by (simp add: isspace_def)
  have f: "remove_char CHR '' '' (remove_char CHR ''-'' k) = spec_clean k"
    unfolding remove_char_def spec_clean_def filter_filter
    using assms sp by (intro filter_cong) auto
  have "\<forall>c \<in> set (spec_clean k). \<not> isspace c" by (simp add: spec_clean_def)
  then have "strip (spec_clean k) = spec_clean k" by (rule strip_id)
  then show ?thesis by (simp add: key_clean_of_def f)
qed

lemma bad_format_iff_spec_clean:
  assumes "\<forall>c \<in> set k. isspace c \<longrightarrow> c = CHR '' ''"
  shows "bad_format (validate_license sk k e)
     \<longleftrightarrow> (\<not> startswith (spec_clean k) ''PRLX'' \<or> length (spec_clean k) < 17)"
  unfolding bad_format_iff_key_clean key_clean_of_spec_clean [OF assms] ..

text \<open>C8 (bad format): the result must be invalid with a bad-format reason exactly when the
  key with its hyphens and whitespace removed does not start with PRLX or is shorter than 17
  characters. The code breaks this in both directions on keys with a tab inside, which its
  cleaning keeps. \<open>PRLXAAAA\<close>, tab, \<open>AAAAAAAA\<close> has sixteen characters once cleaned, and
  is rejected for its tier code, not for its format. \<open>PR\<close>, tab, \<open>LXPLIFE0123456789AB\<close>
  is \<open>PRLX\<close> and seventeen more characters once cleaned, and is rejected for its format.\<close>

theorem C8_interior_tab_failing_input:
  "length (spec_clean (''PRLXAAAA'' @ [CHR 0x09] @ ''AAAAAAAA'')) < 17
   \<and> validate_license SECRET_KEY (''PRLXAAAA'' @ [CHR 0x09] @ ''AAAAAAAA'') ''a@b.com''
       = invalid ''Invalid tier code''
   \<and> \<not> bad_format (validate_license SECRET_KEY (''PRLXAAAA'' @ [CHR 0x09] @ ''AAAAAAAA'')
           ''a@b.com'')
   \<and> startswith (spec_clean (''PR'' @ [CHR 0x09] @ ''LXPLIFE0123456789AB'')) ''PRLX''
   \<and> length (spec_clean (''PR'' @ [CHR 0x09] @ ''LXPLIFE0123456789AB'')) = 21
   \<and> validate_license SECRET_KEY (''PR'' @ [CHR 0x09] @ ''LXPLIFE0123456789AB'') ''a@b.com''
       = invalid ''Invalid format: must start with PRLX''
   \<and> bad_format (validate_license SECRET_KEY (''PR'' @ [CHR 0x09] @ ''LXPLIFE0123456789AB'')
         ''a@b.com'')"
proof -
  have s1: "spec_clean (''PRLXAAAA'' @ [CHR 0x09] @ ''AAAAAAAA'') = ''PRLXAAAAAAAAAAAA''"
    by (simp add: spec_clean_def isspace_def)
  have s2: "spec_clean (''PR'' @ [CHR 0x09] @ ''LXPLIFE0123456789AB'') = ''PRLXPLIFE0123456789AB''"
    by (simp add: spec_clean_def isspace_def)
  have k1: "key_clean_of (''PRLXAAAA'' @ [CHR 0x09] @ ''AAAAAAAA'')
              = ''PRLXAAAA'' @ [CHR 0x09] @ ''AAAAAAAA''"
    by (simp add: key_clean_of_def remove_char_def strip_def isspace_def)
  have k2: "key_clean_of (''PR'' @ [CHR 0x09] @ ''LXPLIFE0123456789AB'')
              = ''PR'' @ [CHR 0x09] @ ''LXPLIFE0123456789AB''"
    by (simp add: key_clean_of_def remove_char_def strip_def isspace_def)
  have r1: "validate_license SECRET_KEY (''PRLXAAAA'' @ [CHR 0x09] @ ''AAAAAAAA'') ''a@b.com''
              = invalid ''Invalid tier code''"
    unfolding validate_license_eq k1 by (simp add: startswith_def tier_map_def)
  have r2: "validate_license SECRET_KEY (''PR'' @ [CHR 0x09] @ ''LXPLIFE0123456789AB'') ''a@b.com''
              = invalid ''Invalid format: must start with PRLX''"
    unfolding validate_license_eq k2 by (simp add: startswith_def)
  have b1: "\<not> bad_format (invalid ''Invalid tier code'')"
    by (simp add: bad_format_def invalid_def startswith_def)
  have b2: "bad_format (invalid ''Invalid format: must start with PRLX'')"
    by (simp add: bad_format_def invalid_def startswith_def)
  show ?thesis unfolding r1 r2 s1 s2 using b1 b2 by (simp add: startswith_def)
qed

section \<open>Tier rejection\<close>

lemma lower_char_eq_iff:
  assumes "97 \<le> (of_char d :: nat)" "(of_char d :: nat) \<le> 122"
  shows "lower_char c = d \<longleftrightarrow> caseless_char c d"
proof -
  define n where "n = (of_char c :: nat)"
  have n256: "n < 256" by (simp add: n_def)
  have cn: "c = char_of n" by (simp add: n_def)
  consider (up) "65 \<le> n \<and> n \<le> 90" | (lat) "192 \<le> n \<and> n \<le> 222 \<and> n \<noteq> 215"
    | (other) "\<not> (65 \<le> n \<and> n \<le> 90) \<and> \<not> (192 \<le> n \<and> n \<le> 222 \<and> n \<noteq> 215)"
    by blast
  then show ?thesis
  proof cases
    case up
    then have l: "lower_char c = char_of (n + 32)"
      by (simp add: lower_char_def n_def [symmetric])
    have "char_of (n + 32) = d \<longleftrightarrow> n + 32 = of_char d"
      using up by (simp add: char_of_eq_iff take_bit_eq_mod)
    moreover have "c \<noteq> d" using up assms n_def by auto
    ultimately show ?thesis using up by (simp add: l caseless_char_def n_def [symmetric])
  next
    case lat
    then have l: "lower_char c = char_of (n + 32)"
      by (simp add: lower_char_def n_def [symmetric])
    have "(of_char (char_of (n + 32)) :: nat) = n + 32" using lat by simp
    then have "char_of (n + 32) \<noteq> d" using lat assms by auto
    moreover have "c \<noteq> d" using lat assms n_def by auto
    ultimately show ?thesis using lat by (simp add: l caseless_char_def n_def [symmetric])
  next
    case other
    then have l: "lower_char c = c"
      unfolding lower_char_def Let_def n_def [symmetric] by auto
    show ?thesis using other by (auto simp add: l caseless_char_def n_def [symmetric])
  qed
qed

lemma lower_eq_iff:
  assumes "\<forall>d \<in> set w. 97 \<le> (of_char d :: nat) \<and> (of_char d :: nat) \<le> 122"
  shows "lower s = w \<longleftrightarrow> caseless_eq s w"
  using assms
proof (induction w arbitrary: s)
  case Nil
  then show ?case by (simp add: lower_def caseless_eq_def)
next
  case (Cons d w)
  have ih: "lower s' = w \<longleftrightarrow> caseless_eq s' w" for s'
    using Cons by simp
  have d: "lower_char c = d \<longleftrightarrow> caseless_char c d" for c
    using Cons.prems by (intro lower_char_eq_iff) simp_all
  show ?case
  proof (cases s)
    case Nil
    then show ?thesis by (simp add: lower_def caseless_eq_def)
  next
    case (Cons c s')
    have "lower (c # s') = d # w \<longleftrightarrow> lower_char c = d \<and> lower s' = w"
      by (simp add: lower_def)
    also have "\<dots> \<longleftrightarrow> caseless_char c d \<and> caseless_eq s' w"
      by (simp only: d ih)
    also have "\<dots> \<longleftrightarrow> caseless_eq (c # s') (d # w)"
      by (simp add: caseless_eq_def)
    finally show ?thesis by (simp only: Cons)
  qed
qed

lemma lower_tier_iff:
  "lower t \<in> {''pro'', ''team'', ''enterprise''}
     \<longleftrightarrow> caseless_eq t ''pro'' \<or> caseless_eq t ''team'' \<or> caseless_eq t ''enterprise''"
proof -
  have "lower t = ''pro'' \<longleftrightarrow> caseless_eq t ''pro''" by (rule lower_eq_iff) simp
  moreover have "lower t = ''team'' \<longleftrightarrow> caseless_eq t ''team''" by (rule lower_eq_iff) simp
  moreover have "lower t = ''enterprise'' \<longleftrightarrow> caseless_eq t ''enterprise''"
    by (rule lower_eq_iff) simp
  ultimately show ?thesis by simp
qed

lemma generate_license_fails_iff:
  "is_invalid_tier (generate_license sk e t) \<longleftrightarrow> lower t \<notin> {''pro'', ''team'', ''enterprise''}"
proof (cases "tier_codes (lower t)")
  case None
  then have "lower t \<notin> {''pro'', ''team'', ''enterprise''}"
    unfolding tier_codes_None .
  with None show ?thesis
    by (simp add: generate_license_def is_invalid_tier_def)
next
  case (Some code)
  then have "tier_codes (lower t) \<noteq> None" by simp
  then have "lower t \<in> {''pro'', ''team'', ''enterprise''}"
    unfolding tier_codes_None by simp
  with Some show ?thesis
    by (simp add: generate_license_def is_invalid_tier_def Let_def)
qed

text \<open>C4 (tier rejection): \<open>generate_license\<close> fails, and then with the ValueError that is
  the InvalidTier condition, if and only if the tier is none of pro, team, enterprise up to
  letter case; the tier gold is rejected for every email.\<close>

theorem C4_invalid_tier:
  "(is_invalid_tier (generate_license sk e t)
      \<longleftrightarrow> \<not> (caseless_eq t ''pro'' \<or> caseless_eq t ''team'' \<or> caseless_eq t ''enterprise''))
   \<and> (is_invalid_tier (generate_license sk e t) \<longleftrightarrow> (\<exists>x. generate_license sk e t = Inl x))
   \<and> generate_license sk e ''gold''
       = Inl (ValueError ''Invalid tier: gold. Must be pro, team, or enterprise'')"
proof -
  have a: "is_invalid_tier (generate_license sk e t)
      \<longleftrightarrow> \<not> (caseless_eq t ''pro'' \<or> caseless_eq t ''team'' \<or> caseless_eq t ''enterprise'')"
    unfolding generate_license_fails_iff lower_tier_iff ..
  have b: "is_invalid_tier (generate_license sk e t) \<longleftrightarrow> (\<exists>x. generate_license sk e t = Inl x)"
    by (simp add: generate_license_def is_invalid_tier_def Let_def split: option.splits)
  have c: "generate_license sk e ''gold''
       = Inl (ValueError ''Invalid tier: gold. Must be pro, team, or enterprise'')"
    by (simp add: generate_license_def lower_def lower_char_def tier_codes_def)
  from a b c show ?thesis by blast
qed

theorem C4_invalid_tier_witness:
  "is_invalid_tier (generate_license SECRET_KEY ''a@b.com'' ''Gold'')
   \<and> \<not> is_invalid_tier (generate_license SECRET_KEY ''a@b.com'' ''PrO'')
   \<and> caseless_eq ''PrO'' ''pro''"
proof -
  have g: "\<not> (caseless_eq ''Gold'' ''pro'' \<or> caseless_eq ''Gold'' ''team''
               \<or> caseless_eq ''Gold'' ''enterprise'')"
    by (simp add: caseless_eq_def caseless_char_def)
  have p: "caseless_eq ''PrO'' ''pro''"
    by (simp add: caseless_eq_def caseless_char_def)
  show ?thesis
    using C4_invalid_tier [of SECRET_KEY "''a@b.com''" "''Gold''"]
      C4_invalid_tier [of SECRET_KEY "''a@b.com''" "''PrO''"] g p
    by blast
qed

section \<open>The expiry marker\<close>

lemma take_eq_nth:
  assumes "length xs = length ys" "\<forall>i < length xs. i < n \<longrightarrow> xs ! i = ys ! i"
  shows "take n xs = take n ys"
  using assms by (intro nth_equalityI) simp_all

lemma drop_eq_nth:
  assumes "length xs = length ys" "\<forall>i < length xs. n \<le> i \<longrightarrow> xs ! i = ys ! i"
  shows "drop n xs = drop n ys"
  using assms by (intro nth_equalityI) simp_all

text \<open>C10 (expiry is not checked): when two cleaned keys have the same length and agree
  everywhere outside positions 5 to 8, validation against the same email gives the same
  verdict, the same tier and the same failure reason; and a valid result echoes back the four
  characters that the key carries at positions 5 to 8.\<close>

theorem C10_expiry_unchecked:
  assumes "length (key_clean_of k1) = length (key_clean_of k2)"
    and "\<forall>i < length (key_clean_of k1). i < 5 \<or> 9 \<le> i \<longrightarrow> key_clean_of k1 ! i = key_clean_of k2 ! i"
  shows "valid (validate_license sk k1 e) = valid (validate_license sk k2 e)
       \<and> tier (validate_license sk k1 e) = tier (validate_license sk k2 e)
       \<and> error (validate_license sk k1 e) = error (validate_license sk k2 e)
       \<and> (valid (validate_license sk k1 e) \<longrightarrow>
            expiry (validate_license sk k1 e) = Some (take 4 (drop 5 (key_clean_of k1)))
          \<and> expiry (validate_license sk k2 e) = Some (take 4 (drop 5 (key_clean_of k2))))"
proof -
  define c1 where "c1 = key_clean_of k1"
  define c2 where "c2 = key_clean_of k2"
  have len: "length c1 = length c2" using assms(1) by (simp add: c1_def c2_def)
  have t5: "take 5 c1 = take 5 c2"
    using len assms(2) unfolding c1_def [symmetric] c2_def [symmetric]
    by (intro take_eq_nth) simp_all
  have d9: "drop 9 c1 = drop 9 c2"
    using len assms(2) unfolding c1_def [symmetric] c2_def [symmetric]
    by (intro drop_eq_nth) simp_all
  have "take 4 (take 5 c1) = take 4 (take 5 c2)" by (simp only: t5)
  then have t4: "take 4 c1 = take 4 c2" by simp
  have n4: "c1 ! 4 = c2 ! 4" if "17 \<le> length c1"
  proof -
    have "take 5 c1 ! 4 = take 5 c2 ! 4" by (simp only: t5)
    then show ?thesis by simp
  qed
  have "length ''PRLX'' = 4" by simp
  then have "take (length ''PRLX'') c1 = take (length ''PRLX'') c2"
    using t4 by (simp only:)
  then have sw: "startswith c1 ''PRLX'' = startswith c2 ''PRLX''"
    by (simp only: startswith_def)
  show ?thesis
    unfolding validate_license_eq c1_def [symmetric] c2_def [symmetric] Let_def
    using len sw d9 n4
    by (auto simp: invalid_def split: option.splits)
qed

theorem C10_expiry_unchecked_witness:
  "valid (validate_license SECRET_KEY
      (''PRLXP'' @ ''LIFE'' @ hash_part SECRET_KEY ''a@b.com'' ''pro'') ''a@b.com'')
   \<and> valid (validate_license SECRET_KEY
      (''PRLXP'' @ ''2099'' @ hash_part SECRET_KEY ''a@b.com'' ''pro'') ''a@b.com'')
   \<and> tier (validate_license SECRET_KEY
      (''PRLXP'' @ ''2099'' @ hash_part SECRET_KEY ''a@b.com'' ''pro'') ''a@b.com'') = Some ''pro''
   \<and> expiry (validate_license SECRET_KEY
      (''PRLXP'' @ ''LIFE'' @ hash_part SECRET_KEY ''a@b.com'' ''pro'') ''a@b.com'') = Some ''LIFE''
   \<and> expiry (validate_license SECRET_KEY
      (''PRLXP'' @ ''2099'' @ hash_part SECRET_KEY ''a@b.com'' ''pro'') ''a@b.com'') = Some ''2099''"
proof -
  define hp where "hp = hash_part SECRET_KEY ''a@b.com'' ''pro''"
  define k1 where "k1 = ''PRLXP'' @ ''LIFE'' @ hp"
  define k2 where "k2 = ''PRLXP'' @ ''2099'' @ hp"
  have len: "length hp = 12" by (simp add: hp_def length_hash_part)
  have hpc: "c \<noteq> CHR ''-'' \<and> \<not> isspace c" if "c \<in> set hp" for c
    using that hash_part_chars unfolding hp_def by blast
  have c1: "key_clean_of k1 = k1"
  proof (rule key_clean_of_id, rule ballI)
    fix c assume "c \<in> set k1"
    then have "c \<in> set ''PRLXPLIFE'' \<or> c \<in> set hp" by (auto simp: k1_def)
    then show "c \<noteq> CHR ''-'' \<and> \<not> isspace c"
      using hpc by (auto simp: isspace_def)
  qed
  have c2: "key_clean_of k2 = k2"
  proof (rule key_clean_of_id, rule ballI)
    fix c assume "c \<in> set k2"
    then have "c \<in> set ''PRLXP2099'' \<or> c \<in> set hp" by (auto simp: k2_def)
    then show "c \<noteq> CHR ''-'' \<and> \<not> isspace c"
      using hpc by (auto simp: isspace_def)
  qed
  have h1: "length (key_clean_of k1) = length (key_clean_of k2)"
    unfolding c1 c2 by (simp add: k1_def k2_def)
  have low: "k1 ! i = k2 ! i" if "i < 5" for i
  proof -
    from that have "i = 0 \<or> i = 1 \<or> i = 2 \<or> i = 3 \<or> i = 4" by arith
    then show ?thesis by (auto simp: k1_def k2_def)
  qed
  have high: "k1 ! i = k2 ! i" if "9 \<le> i" for i
    using that by (simp add: k1_def k2_def nth_append)
  have h2: "\<forall>i < length (key_clean_of k1). i < 5 \<or> 9 \<le> i
              \<longrightarrow> key_clean_of k1 ! i = key_clean_of k2 ! i"
    unfolding c1 c2 using low high by blast
  have v1: "valid (validate_license SECRET_KEY k1 ''a@b.com'')"
    unfolding validate_license_eq c1
    by (simp add: k1_def startswith_def len tier_map_def hp_def [symmetric])
  have e1: "take 4 (drop 5 k1) = ''LIFE''" by (simp add: k1_def)
  have e2: "take 4 (drop 5 k2) = ''2099''" by (simp add: k2_def)
  have t1: "tier (validate_license SECRET_KEY k1 ''a@b.com'') = Some ''pro''"
    unfolding validate_license_eq c1
    by (simp add: k1_def startswith_def len tier_map_def hp_def [symmetric])
  from C10_expiry_unchecked [OF h1 h2, of SECRET_KEY "''a@b.com''"] v1 t1
  have "valid (validate_license SECRET_KEY k1 ''a@b.com'')
      \<and> valid (validate_license SECRET_KEY k2 ''a@b.com'')
      \<and> tier (validate_license SECRET_KEY k2 ''a@b.com'') = Some ''pro''
      \<and> expiry (validate_license SECRET_KEY k1 ''a@b.com'') = Some ''LIFE''
      \<and> expiry (validate_license SECRET_KEY k2 ''a@b.com'') = Some ''2099''"
    unfolding c1 c2 e1 e2 by simp
  then show ?thesis by (simp only: k1_def k2_def hp_def)
qed

section \<open>Format resilience\<close>

lemma isspace_tab: "isspace (CHR 0x09)"
  by (simp add: isspace_def)

lemma dropWhile_all: "\<forall>x \<in> set ws. P x \<Longrightarrow> dropWhile P (ws @ xs) = dropWhile P xs"
  by (induction ws) simp_all

lemma strip_surround:
  assumes "\<forall>x \<in> set ws. isspace x" "\<forall>x \<in> set ws'. isspace x"
  shows "strip (ws @ s @ ws') = strip s"
proof -
  have a: "dropWhile isspace (ws @ s @ ws') = dropWhile isspace (s @ ws')"
    using assms(1) by (rule dropWhile_all)
  show ?thesis
  proof (cases "\<forall>x \<in> set s. isspace x")
    case True
    have e1: "dropWhile isspace (s @ ws') = []"
      unfolding dropWhile_eq_Nil_conv using True assms(2) by auto
    have e2: "dropWhile isspace s = []"
      unfolding dropWhile_eq_Nil_conv using True by auto
    show ?thesis unfolding strip_def a e1 e2 ..
  next
    case False
    then obtain x where "x \<in> set s" "\<not> isspace x" by blast
    then have "dropWhile isspace (s @ ws') = dropWhile isspace s @ ws'"
      by (rule dropWhile_append1)
    moreover have "dropWhile isspace (rev ws' @ ys) = dropWhile isspace ys" for ys
      using assms(2) by (intro dropWhile_all) simp
    ultimately show ?thesis unfolding strip_def a by simp
  qed
qed

lemma key_clean_of_insert:
  assumes "c = CHR ''-'' \<or> c = CHR '' ''"
  shows "key_clean_of (xs @ [c] @ ys) = key_clean_of (xs @ ys)"
  using assms by (auto simp: key_clean_of_def remove_char_def)

lemma key_clean_of_surround:
  assumes "\<forall>x \<in> set ws. isspace x" "\<forall>x \<in> set ws'. isspace x"
  shows "key_clean_of (ws @ k @ ws') = key_clean_of k"
proof -
  let ?f = "\<lambda>s. remove_char CHR '' '' (remove_char CHR ''-'' s)"
  have "?f (ws @ k @ ws') = ?f ws @ ?f k @ ?f ws'" by (simp add: remove_char_def)
  moreover have "\<forall>x \<in> set (?f ws). isspace x" using assms(1) by (simp add: remove_char_def)
  moreover have "\<forall>x \<in> set (?f ws'). isspace x" using assms(2) by (simp add: remove_char_def)
  ultimately show ?thesis
    unfolding key_clean_of_def by (simp only: strip_surround)
qed

lemma validate_license_clean:
  assumes "key_clean_of k1 = key_clean_of k2"
  shows "validate_license sk k1 e = validate_license sk k2 e"
  unfolding validate_license_eq assms ..

text \<open>What the cleaning achieves: a hyphen or a space inserted anywhere in the key, and
  whitespace of any kind before and after the key, leave the validation result unchanged.\<close>

lemma hyphens_spaces_and_outer_whitespace_ignored:
  assumes "c = CHR ''-'' \<or> c = CHR '' ''"
    and "\<forall>x \<in> set ws. isspace x" and "\<forall>x \<in> set ws'. isspace x"
  shows "validate_license sk (xs @ [c] @ ys) e = validate_license sk (xs @ ys) e
       \<and> validate_license sk (ws @ k @ ws') e = validate_license sk k e"
proof
  show "validate_license sk (xs @ [c] @ ys) e = validate_license sk (xs @ ys) e"
    by (rule validate_license_clean) (rule key_clean_of_insert [OF assms(1)])
  show "validate_license sk (ws @ k @ ws') e = validate_license sk k e"
    by (rule validate_license_clean) (rule key_clean_of_surround [OF assms(2,3)])
qed

text \<open>C7 (format resilience): \<open>validate_license\<close> must return the same result for a key
  with or without hyphens and whitespace, wherever they are inserted. The code breaks this
  for whitespace other than the space character inside the key: the sixteen characters
  \<open>PRLXAAAAAAAAAAAA\<close> are rejected as too short, and the same key with a tab after its
  eighth character is rejected for its tier code, because the tab is kept and counted.\<close>

theorem C7_interior_tab_failing_input:
  "validate_license SECRET_KEY ''PRLXAAAAAAAAAAAA'' ''a@b.com''
     = invalid ''Invalid format: key too short''
   \<and> validate_license SECRET_KEY (''PRLXAAAA'' @ [CHR 0x09] @ ''AAAAAAAA'') ''a@b.com''
     = invalid ''Invalid tier code''
   \<and> validate_license SECRET_KEY ''PRLXAAAAAAAAAAAA'' ''a@b.com''
     \<noteq> validate_license SECRET_KEY (''PRLXAAAA'' @ [CHR 0x09] @ ''AAAAAAAA'') ''a@b.com''
   \<and> spec_clean (''PRLXAAAA'' @ [CHR 0x09] @ ''AAAAAAAA'') = spec_clean ''PRLXAAAAAAAAAAAA''"
proof -
  have k1: "key_clean_of ''PRLXAAAAAAAAAAAA'' = ''PRLXAAAAAAAAAAAA''"
    by (simp add: key_clean_of_def remove_char_def strip_def isspace_def)
  have k2: "key_clean_of (''PRLXAAAA'' @ [CHR 0x09] @ ''AAAAAAAA'')
              = ''PRLXAAAA'' @ [CHR 0x09] @ ''AAAAAAAA''"
    by (simp add: key_clean_of_def remove_char_def strip_def isspace_def)
  have r1: "validate_license SECRET_KEY ''PRLXAAAAAAAAAAAA'' ''a@b.com''
              = invalid ''Invalid format: key too short''"
    unfolding validate_license_eq k1 by (simp add: startswith_def)
  have r2: "validate_license SECRET_KEY (''PRLXAAAA'' @ [CHR 0x09] @ ''AAAAAAAA'') ''a@b.com''
              = invalid ''Invalid tier code''"
    unfolding validate_license_eq k2 by (simp add: startswith_def tier_map_def)
  have s: "spec_clean (''PRLXAAAA'' @ [CHR 0x09] @ ''AAAAAAAA'') = spec_clean ''PRLXAAAAAAAAAAAA''"
    by (simp add: spec_clean_def isspace_def)
  show ?thesis unfolding r1 r2 using s by (simp add: invalid_def)
qed

section \<open>Tamper sensitivity\<close>

lemma strip_prefix_keep:
  assumes "p \<noteq> []" "\<not> isspace (hd p)" "\<not> isspace (last p)"
  shows "strip (p @ ys) = p @ rev (dropWhile isspace (rev ys))"
proof -
  from assms(1,2) have a: "dropWhile isspace (p @ ys) = p @ ys" by (cases p) simp_all
  define l where "l = last p"
  from assms(1) have pq: "p = butlast p @ [l]"
    by (simp add: l_def)
  have r: "rev p = l # rev (butlast p)" by (subst pq) simp
  have b: "dropWhile isspace (rev p) = rev p"
    unfolding r using assms(3) by (simp add: l_def)
  have "dropWhile isspace (rev ys @ rev p) = dropWhile isspace (rev ys) @ rev p"
  proof (cases "\<forall>x \<in> set (rev ys). isspace x")
    case True
    then have "dropWhile isspace (rev ys) = []" unfolding dropWhile_eq_Nil_conv .
    with True b show ?thesis by (simp add: dropWhile_append)
  next
    case False
    then obtain x where "x \<in> set (rev ys)" "\<not> isspace x" by blast
    then show ?thesis by (rule dropWhile_append1)
  qed
  then show ?thesis by (simp add: strip_def a)
qed

lemma rstrip_length:
  "length (filter (\<lambda>x. \<not> P x) xs) \<le> length (rev (dropWhile P (rev xs)))"
proof -
  have "filter (\<lambda>x. \<not> P x) (dropWhile P ys) = filter (\<lambda>x. \<not> P x) ys" for ys
    by (induction ys) simp_all
  then have "length (filter (\<lambda>x. \<not> P x) (rev xs)) \<le> length (dropWhile P (rev xs))"
    by (metis length_filter_le)
  then show ?thesis by (simp add: rev_filter [symmetric])
qed

lemma dropWhile_same_length:
  assumes "length (dropWhile P xs) = length xs"
  shows "dropWhile P xs = xs"
proof -
  have "length (takeWhile P xs) + length (dropWhile P xs) = length xs"
    by (metis length_append takeWhile_dropWhile_id)
  with assms have "takeWhile P xs = []" by simp
  then show ?thesis by (metis append_Nil takeWhile_dropWhile_id)
qed

lemma filter_same_length:
  assumes "length (filter P xs) = length xs"
  shows "filter P xs = xs"
proof -
  have "\<forall>x \<in> set xs. P x"
  proof (rule ccontr)
    assume "\<not> (\<forall>x \<in> set xs. P x)"
    then obtain x where "x \<in> set xs" "\<not> P x" by blast
    then have "length (filter P xs) < length xs" by (rule length_filter_less)
    with assms show False by simp
  qed
  then show ?thesis by simp
qed

lemma tampered_digest_mismatch:
  assumes code: "tier_codes tn = Some code"
    and i: "i < 12" and c: "c' \<noteq> hash_part sk e tn ! i"
  shows "validate_license sk
           (join ''-'' (chunks 4 (''PRLX'' @ code @ ''LIFE'' @ (hash_part sk e tn)[i := c']))) e
         = invalid ''Invalid key: hash mismatch''"
proof -
  define hp where "hp = hash_part sk e tn"
  define hp' where "hp' = hp[i := c']"
  define p where "p = ''PRLX'' @ code @ ''LIFE''"
  define f where "f = (\<lambda>s. remove_char CHR '' '' (remove_char CHR ''-'' s))"
  define z where "z = f hp'"
  define r where "r = rev (dropWhile isspace (rev z))"
  have len: "length hp = 12" by (simp add: hp_def length_hash_part)
  have good: "x \<noteq> CHR ''-'' \<and> x \<noteq> CHR '' '' \<and> \<not> isspace x" if "x \<in> set hp" for x
  proof -
    have "isspace CHR '' ''" by (simp add: isspace_def)
    with hash_part_chars [of x sk e tn] that show ?thesis by (auto simp: hp_def)
  qed
  from code have cd: "code \<in> {''P'', ''T'', ''E''}" by (auto simp: tier_codes_Some)
  have fp: "f p = p" using cd by (auto simp: f_def p_def remove_char_def)
  have f_app: "f (xs @ ys) = f xs @ f ys" for xs ys by (simp add: f_def remove_char_def)
  have p_ends: "p \<noteq> []" "\<not> isspace (hd p)" "\<not> isspace (last p)"
    by (simp_all add: p_def isspace_def)
  have kc: "key_clean_of (join ''-'' (chunks 4 (p @ hp'))) = p @ r"
  proof -
    have "remove_char CHR '' '' (remove_char CHR ''-'' (p @ hp')) = f (p @ hp')"
      by (simp add: f_def)
    also have "\<dots> = p @ z" by (simp add: f_app fp z_def)
    finally have "key_clean_of (p @ hp') = strip (p @ z)" by (simp add: key_clean_of_def)
    then show ?thesis
      unfolding key_clean_of_join_chunks r_def by (simp only: strip_prefix_keep [OF p_ends])
  qed
  have split: "hp' = take i hp @ c' # drop (Suc i) hp"
    unfolding hp'_def using i len by (simp add: upd_conv_take_nth_drop)
  \<comment> \<open>at least eleven characters of the digest survive the cleaning\<close>
  have zf: "filter (\<lambda>x. \<not> isspace x) z
              = filter (\<lambda>x. x \<noteq> CHR ''-'' \<and> x \<noteq> CHR '' '' \<and> \<not> isspace x) hp'"
    by (auto simp: z_def f_def remove_char_def intro: filter_cong)
  have keep: "filter (\<lambda>x. x \<noteq> CHR ''-'' \<and> x \<noteq> CHR '' '' \<and> \<not> isspace x) xs = xs"
    if "set xs \<subseteq> set hp" for xs
    using that good by (intro filter_True) blast
  have "length (filter (\<lambda>x. x \<noteq> CHR ''-'' \<and> x \<noteq> CHR '' '' \<and> \<not> isspace x) hp')
          \<ge> length (take i hp) + length (drop (Suc i) hp)"
    unfolding split by (simp add: keep set_take_subset set_drop_subset)
  then have "11 \<le> length (filter (\<lambda>x. \<not> isspace x) z)"
    unfolding zf using i len by simp
  moreover have "length (filter (\<lambda>x. \<not> isspace x) z) \<le> length r"
    unfolding r_def by (rule rstrip_length)
  ultimately have r11: "11 \<le> length r" by simp
  \<comment> \<open>and what survives is not the digest\<close>
  have zle: "length z \<le> 12"
  proof -
    have "length z \<le> length hp'" by (simp add: z_def f_def remove_char_def le_trans [OF length_filter_le length_filter_le])
    then show ?thesis by (simp add: hp'_def len)
  qed
  have rle: "length r \<le> length z"
    by (simp add: r_def length_dropWhile_le [of isspace "rev z", simplified])
  have ne: "r \<noteq> hp"
  proof
    assume eq: "r = hp"
    then have r12: "length r = 12" by (simp add: len)
    with rle zle have z12: "length z = 12" by simp
    have "length (dropWhile isspace (rev z)) = length (rev z)"
      using r12 z12 by (simp add: r_def)
    then have "dropWhile isspace (rev z) = rev z" by (rule dropWhile_same_length)
    then have rz: "r = z" by (simp add: r_def)
    have l1: "length (remove_char CHR ''-'' hp') = 12"
    proof -
      have "length z \<le> length (remove_char CHR ''-'' hp')"
        unfolding z_def f_def remove_char_def by (rule length_filter_le)
      moreover have "length (remove_char CHR ''-'' hp') \<le> length hp'"
        by (simp add: remove_char_def)
      ultimately show ?thesis using z12 by (simp add: hp'_def len)
    qed
    then have "length (filter (\<lambda>x. x \<noteq> CHR ''-'') hp') = length hp'"
      by (simp add: remove_char_def hp'_def len)
    then have a: "remove_char CHR ''-'' hp' = hp'"
      unfolding remove_char_def by (rule filter_same_length)
    have zz: "z = remove_char CHR '' '' hp'"
      unfolding z_def f_def a ..
    have "length (filter (\<lambda>x. x \<noteq> CHR '' '') hp') = length hp'"
      using z12 unfolding zz remove_char_def by (simp add: hp'_def len)
    then have "remove_char CHR '' '' hp' = hp'"
      unfolding remove_char_def by (rule filter_same_length)
    with zz have "z = hp'" by simp
    with rz eq have "hp = hp[i := c']" by (simp add: hp'_def)
    then have "hp ! i = hp[i := c'] ! i" by simp
    then have "hp ! i = c'" using i len by simp
    with c show False by (simp add: hp_def)
  qed
  from cd consider "tn = ''pro'' \<and> code = ''P''" | "tn = ''team'' \<and> code = ''T''"
    | "tn = ''enterprise'' \<and> code = ''E''"
    using code by (auto simp: tier_codes_Some)
  then have "validate_license sk (join ''-'' (chunks 4 (p @ hp'))) e
               = invalid ''Invalid key: hash mismatch''"
  proof cases
    case 1
    then show ?thesis
      unfolding validate_license_eq kc using r11 ne
      by (simp add: p_def startswith_def tier_map_def Let_def hp_def)
  next
    case 2
    then show ?thesis
      unfolding validate_license_eq kc using r11 ne
      by (simp add: p_def startswith_def tier_map_def Let_def hp_def)
  next
    case 3
    then show ?thesis
      unfolding validate_license_eq kc using r11 ne
      by (simp add: p_def startswith_def tier_map_def Let_def hp_def)
  qed
  then show ?thesis by (simp add: p_def hp'_def hp_def)
qed

lemma list12:
  assumes "length xs = 12"
  obtains a0 a1 a2 a3 a4 a5 a6 a7 a8 a9 a10 a11
  where "xs = [a0, a1, a2, a3, a4, a5, a6, a7, a8, a9, a10, a11]"
proof -
  from assms have "\<exists>a0 a1 a2 a3 a4 a5 a6 a7 a8 a9 a10 a11.
      xs = [a0, a1, a2, a3, a4, a5, a6, a7, a8, a9, a10, a11]"
    by (simp add: numeral_eq_Suc length_Suc_conv) blast
  then show ?thesis using that by blast
qed

lemma less12_cases:
  assumes "i < (12::nat)"
  shows "i = 0 \<or> i = 1 \<or> i = 2 \<or> i = 3 \<or> i = 4 \<or> i = 5 \<or> i = 6 \<or> i = 7 \<or> i = 8
         \<or> i = 9 \<or> i = 10 \<or> i = 11"
  using assms by arith

lemma hyphenated_update:
  assumes "length hp = 12" "i < 12"
  shows "(join ''-'' (chunks 4 (''PRLX'' @ [k] @ ''LIFE'' @ hp)))[digest_pos i := c']
           = join ''-'' (chunks 4 (''PRLX'' @ [k] @ ''LIFE'' @ hp[i := c']))
       \<and> join ''-'' (chunks 4 (''PRLX'' @ [k] @ ''LIFE'' @ hp)) ! digest_pos i = hp ! i"
proof -
  from assms(1) obtain a0 a1 a2 a3 a4 a5 a6 a7 a8 a9 a10 a11
    where hp: "hp = [a0, a1, a2, a3, a4, a5, a6, a7, a8, a9, a10, a11]"
    by (rule list12)
  have key: "join ''-'' (chunks 4 [CHR ''P'', CHR ''R'', CHR ''L'', CHR ''X'', k, CHR ''L'',
        CHR ''I'', CHR ''F'', CHR ''E'', b0, b1, b2, b3, b4, b5, b6, b7, b8, b9, b10, b11])
      = [CHR ''P'', CHR ''R'', CHR ''L'', CHR ''X'', CHR ''-'', k, CHR ''L'', CHR ''I'',
         CHR ''F'', CHR ''-'', CHR ''E'', b0, b1, b2, CHR ''-'', b3, b4, b5, b6, CHR ''-'',
         b7, b8, b9, b10, CHR ''-'', b11]"
    for b0 b1 b2 b3 b4 b5 b6 b7 b8 b9 b10 b11 :: char
    by (simp add: chunks.simps)
  from less12_cases [OF assms(2)] show ?thesis
    unfolding hp by (elim disjE) (simp_all add: key digest_pos_def)
qed

text \<open>C5 (tamper sensitivity): for every email and every tier in {pro, team, enterprise},
  replacing one character of the digest portion of the generated key by a different character
  makes \<open>validate_license\<close> against the same email return the hash-mismatch failure. The
  digest portion is the characters of the key at \<open>digest_pos i\<close> for \<open>i < 12\<close>: the
  characters of the cleaned key after its first nine.\<close>

theorem C5_tamper_sensitivity:
  assumes "t \<in> {''pro'', ''team'', ''enterprise''}"
    and "generate_license sk e t = Inr key"
    and "i < 12"
    and "c' \<noteq> key ! digest_pos i"
  shows "validate_license sk (key[digest_pos i := c']) e = invalid ''Invalid key: hash mismatch''
       \<and> key ! digest_pos i = key_clean_of key ! (9 + i)"
proof -
  from assms(1) have low: "lower t = t" by (auto simp: lower_tier_names)
  from assms(1) obtain code where code: "tier_codes t = Some code"
    by (auto simp: tier_codes_Some)
  then obtain k where k: "code = [k]" by (auto simp: tier_codes_Some)
  define hp where "hp = hash_part sk e t"
  have len: "length hp = 12" by (simp add: hp_def length_hash_part)
  have key: "key = join ''-'' (chunks 4 (''PRLX'' @ [k] @ ''LIFE'' @ hp))"
    using generate_license_chunks [of t code sk e] code low assms(2) by (simp add: k hp_def)
  note upd = hyphenated_update [OF len assms(3), of k c']
  have ne: "c' \<noteq> hp ! i" using assms(4) upd by (simp add: key)
  have "validate_license sk (join ''-'' (chunks 4 (''PRLX'' @ [k] @ ''LIFE'' @ hp[i := c']))) e
          = invalid ''Invalid key: hash mismatch''"
    using tampered_digest_mismatch [OF code assms(3), of c' sk e] ne
    by (simp add: k hp_def)
  then have a: "validate_license sk (key[digest_pos i := c']) e
                  = invalid ''Invalid key: hash mismatch''"
    using upd by (simp add: key)
  have "key_clean_of key = ''PRLX'' @ [k] @ ''LIFE'' @ hp"
    using key_clean_of_generated [OF code, of sk e] by (simp add: key k hp_def)
  then have "key_clean_of key ! (9 + i) = hp ! i"
    by (simp add: nth_append)
  with upd have b: "key ! digest_pos i = key_clean_of key ! (9 + i)"
    by (simp add: key)
  from a b show ?thesis by simp
qed

theorem C5_tamper_sensitivity_witness:
  "\<exists>key. generate_license SECRET_KEY ''a@b.com'' ''pro'' = Inr key
     \<and> CHR ''Z'' \<noteq> key ! digest_pos 0
     \<and> validate_license SECRET_KEY (key[digest_pos 0 := CHR ''Z'']) ''a@b.com''
         = invalid ''Invalid key: hash mismatch''"
proof -
  define hp where "hp = hash_part SECRET_KEY ''a@b.com'' ''pro''"
  define key where "key = join ''-'' (chunks 4 (''PRLX'' @ ''P'' @ ''LIFE'' @ hp))"
  have t: "''pro'' \<in> {''pro'', ''team'', ''enterprise''}" by simp
  have g: "generate_license SECRET_KEY ''a@b.com'' ''pro'' = Inr key"
    using generate_license_chunks [of "''pro''" "''P''" SECRET_KEY "''a@b.com''"]
    by (simp add: lower_tier_names tier_codes_Some key_def hp_def)
  have len: "length hp = 12" by (simp add: hp_def length_hash_part)
  have i: "(0::nat) < 12" by simp
  have "key ! digest_pos 0 = hp ! 0"
    using hyphenated_update [OF len i, of "CHR ''P''" "CHR ''Z''"] by (simp add: key_def)
  moreover have "hp ! 0 \<in> set hp" using len by (intro nth_mem) simp
  then have "hp ! 0 \<in> set ''0123456789ABCDEF''"
    using set_hash_part unfolding hp_def by blast
  then have "CHR ''Z'' \<noteq> hp ! 0" by auto
  ultimately have z: "CHR ''Z'' \<noteq> key ! digest_pos 0" by simp
  from C5_tamper_sensitivity [OF t g i z] g z show ?thesis by blast
qed

section \<open>Email binding and the concrete scenario\<close>

lemma hash_part_collision: "\<exists>a b. a \<noteq> b \<and> hash_part sk a tn = hash_part sk b tn"
proof (rule ccontr)
  assume "\<not> (\<exists>a b. a \<noteq> b \<and> hash_part sk a tn = hash_part sk b tn)"
  then have inj: "inj (\<lambda>a. hash_part sk a tn)" by (auto simp: inj_on_def)
  have "range (\<lambda>a. hash_part sk a tn)
          \<subseteq> {xs. set xs \<subseteq> set ''0123456789ABCDEF'' \<and> length xs = 12}"
    using set_hash_part length_hash_part by blast
  moreover have "finite {xs. set xs \<subseteq> set ''0123456789ABCDEF'' \<and> length xs = 12}"
    by (rule finite_lists_length_eq) simp
  ultimately have "finite (range (\<lambda>a. hash_part sk a tn))" by (rule finite_subset)
  then have "finite (UNIV :: string set)" using inj by (rule finite_imageD)
  then show False using infinite_UNIV_listI by blast
qed

lemma validate_generated:
  assumes "t \<in> {''pro'', ''team'', ''enterprise''}" "generate_license sk a t = Inr key"
  shows "validate_license sk key b
           = (if hash_part sk a t = hash_part sk b t
              then \<lparr>valid = True, tier = Some t, expiry = Some ''LIFE'', email = Some b,
                    error = None\<rparr>
              else invalid ''Invalid key: hash mismatch'')"
proof -
  from assms(1) have low: "lower t = t" by (auto simp: lower_tier_names)
  from assms(1) obtain code where code: "tier_codes t = Some code"
    by (auto simp: tier_codes_Some)
  have "key = join ''-'' (chunks 4 (''PRLX'' @ code @ ''LIFE'' @ hash_part sk a t))"
    using generate_license_chunks [of t code sk a] code low assms(2) by simp
  then show ?thesis using validate_raw [OF code, of sk a b] by simp
qed

text \<open>C6 (email binding), as the code has it: the key generated for one email is valid for
  another email exactly when the two emails have the same twelve-character digest fragment for
  that tier; when the fragments differ the result is the hash-mismatch failure.\<close>

theorem C6_email_binding:
  assumes "t \<in> {''pro'', ''team'', ''enterprise''}" "generate_license sk a t = Inr key"
  shows "(valid (validate_license sk key b) \<longleftrightarrow> hash_part sk a t = hash_part sk b t)
       \<and> (hash_part sk a t \<noteq> hash_part sk b t \<longrightarrow>
            validate_license sk key b = invalid ''Invalid key: hash mismatch'')"
  unfolding validate_generated [OF assms] by (simp add: invalid_def)

theorem C6_email_binding_witness:
  "\<exists>key. generate_license SECRET_KEY ''a@b.com'' ''pro'' = Inr key
     \<and> (valid (validate_license SECRET_KEY key ''c@d.com'')
          \<longleftrightarrow> hash_part SECRET_KEY ''a@b.com'' ''pro'' = hash_part SECRET_KEY ''c@d.com'' ''pro'')"
proof -
  have t: "''pro'' \<in> {''pro'', ''team'', ''enterprise''}" by simp
  obtain key where g: "generate_license SECRET_KEY ''a@b.com'' ''pro'' = Inr key"
    using generate_license_chunks [of "''pro''" "''P''" SECRET_KEY "''a@b.com''"]
    by (simp add: lower_tier_names tier_codes_Some)
  from C6_email_binding [OF t g, of "''c@d.com''"] g show ?thesis by blast
qed

text \<open>C6 as stated fails: the digest fragment takes at most \<open>16 ^ 12\<close> values and there
  are infinitely many emails, so two distinct emails share a fragment, and the key of one is
  valid for the other.\<close>

theorem C6_distinct_emails_counterexample:
  "\<not> (\<forall>a b. a \<noteq> b \<longrightarrow>
        (\<forall>key. generate_license SECRET_KEY a ''pro'' = Inr key \<longrightarrow>
               \<not> valid (validate_license SECRET_KEY key b)))"
proof
  assume claim: "\<forall>a b. a \<noteq> b \<longrightarrow>
        (\<forall>key. generate_license SECRET_KEY a ''pro'' = Inr key \<longrightarrow>
               \<not> valid (validate_license SECRET_KEY key b))"
  obtain a b where ab: "a \<noteq> b" "hash_part SECRET_KEY a ''pro'' = hash_part SECRET_KEY b ''pro''"
    using hash_part_collision [of SECRET_KEY "''pro''"] by blast
  have t: "''pro'' \<in> {''pro'', ''team'', ''enterprise''}" by simp
  obtain key where g: "generate_license SECRET_KEY a ''pro'' = Inr key"
    using generate_license_chunks [of "''pro''" "''P''" SECRET_KEY a]
    by (simp add: lower_tier_names tier_codes_Some)
  have "valid (validate_license SECRET_KEY key b)"
    unfolding validate_generated [OF t g] using ab(2) by simp
  with claim ab(1) g show False by blast
qed

text \<open>C9 (concrete scenario), as the code has it: with secret S, email a@b.com and tier pro
  the key is the raw key \<open>PRLX\<close>, \<open>P\<close>, \<open>LIFE\<close>, \<open>H\<close> cut into successive groups of four
  characters joined by hyphens, that is \<open>PRLX-PLIF-E\<close> followed by the first three characters
  of \<open>H\<close>, a hyphen, the next four, a hyphen, the next four, a hyphen and the last one; \<open>H\<close>
  is the first twelve characters of the upper-cased hexadecimal SHA-256 of \<open>a@b.com|pro|S\<close>.\<close>

theorem C9_concrete_scenario:
  "generate_license ''S'' ''a@b.com'' ''pro''
     = Inr (''PRLX-PLIF-E'' @ take 3 (spec_digest_part ''a@b.com|pro|S'') @ ''-''
            @ take 4 (drop 3 (spec_digest_part ''a@b.com|pro|S'')) @ ''-''
            @ take 4 (drop 7 (spec_digest_part ''a@b.com|pro|S'')) @ ''-''
            @ drop 11 (spec_digest_part ''a@b.com|pro|S''))
   \<and> length (spec_digest_part ''a@b.com|pro|S'') = 12"
proof -
  define hp where "hp = spec_digest_part ''a@b.com|pro|S''"
  have hp: "hash_part ''S'' ''a@b.com'' ''pro'' = hp"
    by (simp add: hash_part_def hp_def spec_digest_part_def upper_def take_map)
  have len: "length hp = 12" using length_hash_part [of "''S''" "''a@b.com''" "''pro''"]
    by (simp only: hp)
  then obtain a0 a1 a2 a3 a4 a5 a6 a7 a8 a9 a10 a11
    where l: "hp = [a0, a1, a2, a3, a4, a5, a6, a7, a8, a9, a10, a11]"
    by (rule list12)
  have "generate_license ''S'' ''a@b.com'' ''pro''
          = Inr (join ''-'' (chunks 4 (''PRLX'' @ ''P'' @ ''LIFE'' @ hp)))"
    using generate_license_chunks [of "''pro''" "''P''" "''S''" "''a@b.com''"]
    by (simp add: lower_tier_names tier_codes_Some hp)
  then have "generate_license ''S'' ''a@b.com'' ''pro''
     = Inr (''PRLX-PLIF-E'' @ take 3 hp @ ''-'' @ take 4 (drop 3 hp) @ ''-''
            @ take 4 (drop 7 hp) @ ''-'' @ drop 11 hp)"
    unfolding l by (simp add: chunks.simps)
  with len show ?thesis unfolding hp_def by simp
qed

text \<open>C9 as stated fails: the key is not grouped as \<open>PRLXP-LIFE\<close>; its first ten
  characters are \<open>PRLX-PLIF-\<close>.\<close>

theorem C9_grouping_counterexample:
  "map_sum id (take 10) (generate_license ''S'' ''a@b.com'' ''pro'') = Inr ''PRLX-PLIF-''
   \<and> map_sum id (take 10) (generate_license ''S'' ''a@b.com'' ''pro'') \<noteq> Inr ''PRLXP-LIFE''"
proof -
  have "generate_license ''S'' ''a@b.com'' ''pro''
          = Inr (join ''-'' (chunks 4 (''PRLX'' @ ''P'' @ ''LIFE''
                   @ hash_part ''S'' ''a@b.com'' ''pro'')))"
    using generate_license_chunks [of "''pro''" "''P''" "''S''" "''a@b.com''"]
    by (simp add: lower_tier_names tier_codes_Some)
  moreover obtain a0 a1 a2 a3 a4 a5 a6 a7 a8 a9 a10 a11
    where "hash_part ''S'' ''a@b.com'' ''pro'' = [a0, a1, a2, a3, a4, a5, a6, a7, a8, a9, a10, a11]"
    using length_hash_part [of "''S''" "''a@b.com''" "''pro''"] by (rule list12)
  ultimately show ?thesis by (simp add: chunks.simps)
qed

end
